theory Spec2Isabelle
  imports Main "HOL-Library.Sublist"
begin

section \<open>Text primitives of the script\<close>

text \<open>
  The script \<^verbatim>\<open>scripts/extract-website-schema.py\<close> works on Python \<^verbatim>\<open>str\<close> values. A
  \<^typ>\<open>char\<close> stands for the code point of the same number, so a \<^typ>\<open>string\<close> is a
  Python string over the code points 0 to 255 (ASCII and Latin-1); the classification of
  these code points by \<^verbatim>\<open>\s\<close>, \<^verbatim>\<open>\w\<close> and \<^verbatim>\<open>str.strip\<close> is the one of CPython for
  \<^verbatim>\<open>str\<close> patterns.
\<close>

definition newline :: char where
  "newline = CHR 0x0A"

text \<open>\<^verbatim>\<open>\s\<close> and the characters removed by \<^verbatim>\<open>str.strip()\<close>: tab to carriage return,
  the four separators 0x1C to 0x1F, space, NEL and the no-break space.\<close>

definition is_space :: "char \<Rightarrow> bool" where
  "is_space c =
     (let n = (of_char c :: nat)
      in (9 \<le> n \<and> n \<le> 13) \<or> (28 \<le> n \<and> n \<le> 32) \<or> n = 133 \<or> n = 160)"

text \<open>\<^verbatim>\<open>\w\<close>: the underscore and every alphanumeric code point (letters, digits and the
  numeric signs of Latin-1).\<close>

definition is_word :: "char \<Rightarrow> bool" where
  "is_word c =
     (let n = (of_char c :: nat)
      in (48 \<le> n \<and> n \<le> 57) \<or> (65 \<le> n \<and> n \<le> 90) \<or> n = 95 \<or> (97 \<le> n \<and> n \<le> 122)
         \<or> n = 170 \<or> n = 178 \<or> n = 179 \<or> n = 181 \<or> n = 185 \<or> n = 186
         \<or> (188 \<le> n \<and> n \<le> 190) \<or> (192 \<le> n \<and> n \<le> 214) \<or> (216 \<le> n \<and> n \<le> 246)
         \<or> (248 \<le> n \<and> n \<le> 255))"

text \<open>\<^verbatim>\<open>content.split('\n')\<close>: the pieces between newlines; never the empty list.\<close>

fun split_nl :: "string \<Rightarrow> string list" where
  "split_nl [] = [[]]"
| "split_nl (c # cs) =
     (if c = newline then [] # split_nl cs
      else (case split_nl cs of
              l # ls \<Rightarrow> (c # l) # ls
            | [] \<Rightarrow> [[c]]))"

text \<open>\<^verbatim>\<open>'\n'.join(final_lines)\<close>.\<close>

fun join_nl :: "string list \<Rightarrow> string" where
  "join_nl [] = []"
| "join_nl [l] = l"
| "join_nl (l # l' # ls) = l @ newline # join_nl (l' # ls)"

text \<open>\<^verbatim>\<open>line.strip()\<close>.\<close>

definition strip :: "string \<Rightarrow> string" where
  "strip s = rev (dropWhile is_space (rev (dropWhile is_space s)))"

text \<open>\<^verbatim>\<open>line.count('{')\<close> and \<^verbatim>\<open>line.count('}')\<close>, as Python integers.\<close>

definition count_open :: "string \<Rightarrow> int" where
  "count_open line = int (count_list line (CHR ''{''))"

definition count_close :: "string \<Rightarrow> int" where
  "count_close line = int (count_list line (CHR ''}''))"

text \<open>
  \<^verbatim>\<open>re.match(r'^model\s+(\w+)\s*{', line)\<close>, returning group 1. The classes \<^verbatim>\<open>\s\<close> and
  \<^verbatim>\<open>\w\<close> are disjoint and neither holds the brace, so the greedy match is the only
  possible one: the literal \<^verbatim>\<open>model\<close>, the longest run of spaces (at least one), the
  longest run of word characters (at least one), the longest run of spaces, a brace.
\<close>

definition model_match :: "string \<Rightarrow> string option" where
  "model_match line =
     (if \<not> prefix ''model'' line then None
      else
        let r1 = drop 5 line;
            r2 = dropWhile is_space r1;
            name = takeWhile is_word r2;
            r3 = dropWhile is_space (dropWhile is_word r2)
        in if takeWhile is_space r1 = [] \<or> name = [] then None
           else (case r3 of
                   c # _ \<Rightarrow> if c = CHR ''{'' then Some name else None
                 | [] \<Rightarrow> None))"

section \<open>Block filter\<close>

definition exclude_models :: "string set" where
  "exclude_models = set
    [''RpgPlayer'', ''RpgSession'', ''RpgHistory'', ''RpgTimeline'', ''RpgAltHistory'',
     ''RpgAsset'', ''RpgTile'', ''RpgExpansion'', ''RpgExpansionAccess'', ''RpgSheet'',
     ''RpgBoard'', ''RpgThing'', ''RpgCreature'', ''RpgWorld'', ''RpgWorldWiki'',
     ''RpgWorldWikiRevision'', ''RpgCampaign'', ''CampaignMember'', ''RpgType'',
     ''RpgTable'', ''RpgCard'', ''RpgDeck'', ''RpgRule'', ''RpgEvent'', ''RpgGoal'',
     ''RpgMode'', ''RpgSystem'', ''RpgActivity'', ''RpgSubSystem'', ''RpgAttribute'',
     ''RpgLocation'', ''RpgBook'', ''RpgVoxel'', ''FoundryLicense'', ''FoundryInstance'',
     ''FoundryWorldSnapshot'']"

text \<open>The variables of the first loop.\<close>

record filter_state =
  output_lines :: "string list"
  skip_model :: bool
  current_model :: "string option"
  brace_count :: int

definition filter_init :: filter_state where
  "filter_init =
     \<lparr>output_lines = [], skip_model = False, current_model = None, brace_count = 0\<rparr>"

text \<open>One iteration of \<^verbatim>\<open>for i, line in enumerate(lines)\<close>; each \<^verbatim>\<open>continue\<close> is the end
  of a branch.\<close>

definition filter_step :: "filter_state \<Rightarrow> string \<Rightarrow> filter_state" where
  "filter_step s line =
     (case model_match line of
        Some model_name \<Rightarrow>
          if model_name \<in> exclude_models
          then s\<lparr>current_model := Some model_name, brace_count := 1, skip_model := True\<rparr>
          else s\<lparr>current_model := Some model_name, brace_count := 1, skip_model := False,
                 output_lines := output_lines s @ [line]\<rparr>
      | None \<Rightarrow>
          if skip_model s
          then (let bc = brace_count s + count_open line - count_close line
                in if bc \<le> 0
                   then s\<lparr>brace_count := bc, skip_model := False, current_model := None\<rparr>
                   else s\<lparr>brace_count := bc\<rparr>)
          else s\<lparr>output_lines := output_lines s @ [line]\<rparr>)"

fun filter_loop :: "filter_state \<Rightarrow> string list \<Rightarrow> filter_state" where
  "filter_loop s [] = s"
| "filter_loop s (line # rest) = filter_loop (filter_step s line) rest"

definition block_filter :: "string list \<Rightarrow> string list" where
  "block_filter lines = output_lines (filter_loop filter_init lines)"

section \<open>Relation scrubber\<close>

definition target_prefix :: string where
  "target_prefix = ''model CritUser''"

definition forbidden :: "string list" where
  "forbidden =
     [''ownedWorlds'', ''rpgPlayer'', ''RpgWorld'', ''RpgPlayer'', ''authoredWorldWikiPages'',
      ''lastEditedWorldWikiPages'', ''worldWikiRevisions'', ''RpgWorldWiki'']"

text \<open>\<^verbatim>\<open>any(x in line for x in [...])\<close>: some fragment is a substring of the line.\<close>

definition has_forbidden :: "string \<Rightarrow> bool" where
  "has_forbidden line = list_ex (\<lambda>x. sublist x line) forbidden"

definition note1 :: string where
  "note1 = ''  // NOTE: RPG-related relations (rpgPlayer, ownedWorlds, worldWiki) are now in''"

definition note2 :: string where
  "note2 = ''  // the separate Core Concepts database and accessed via the unified facade''"

record scrub_state =
  final_lines :: "string list"
  in_crit_user :: bool

definition scrub_init :: scrub_state where
  "scrub_init = \<lparr>final_lines = [], in_crit_user = False\<rparr>"

text \<open>One iteration of \<^verbatim>\<open>for line in output_lines\<close>.\<close>

definition scrub_step :: "scrub_state \<Rightarrow> string \<Rightarrow> scrub_state" where
  "scrub_step s line =
     (if prefix target_prefix line
      then s\<lparr>in_crit_user := True, final_lines := final_lines s @ [line]\<rparr>
      else if in_crit_user s \<and> strip line = ''}''
      then s\<lparr>in_crit_user := False,
             final_lines := final_lines s @ [[], note1, note2, line]\<rparr>
      else if in_crit_user s \<and> has_forbidden line
      then s
      else s\<lparr>final_lines := final_lines s @ [line]\<rparr>)"

fun scrub_loop :: "scrub_state \<Rightarrow> string list \<Rightarrow> scrub_state" where
  "scrub_loop s [] = s"
| "scrub_loop s (line # rest) = scrub_loop (scrub_step s line) rest"

definition scrubber :: "string list \<Rightarrow> string list" where
  "scrubber lines = final_lines (scrub_loop scrub_init lines)"

text \<open>Both loops, from the lines read to the lines written.\<close>

definition transform :: "string list \<Rightarrow> string list" where
  "transform lines = scrubber (block_filter lines)"

section \<open>Reading, writing and reporting\<close>

text \<open>
  The script reads one file and writes one. A file holds text or bytes that are not UTF-8;
  \<open>unwritable\<close> holds the paths that \<^verbatim>\<open>open(path, 'w')\<close> refuses (permission denied, missing
  directory). An uncaught exception ends the script: the result is the error and the world
  is the one before the failing call. \<open>console\<close> is the standard output; the
  f-string \<^verbatim>\<open>f"Total lines: {len(final_lines)}"\<close> is kept as the number it formats.
\<close>

datatype file_content = Text string | Undecodable

datatype io_error = FileNotFound | DecodeError | WriteDenied

datatype printed = Message string | TotalLines nat

record world =
  files :: "string \<rightharpoonup> file_content"
  unwritable :: "string set"
  console :: "printed list"

definition input_path :: string where
  "input_path = ''prisma/schema-full-original.txt''"

definition output_path :: string where
  "output_path = ''prisma/schema.prisma''"

text \<open>\<^verbatim>\<open>with open(path, 'r', encoding='utf-8') as f: content = f.read()\<close>.\<close>

definition read_text :: "world \<Rightarrow> string \<Rightarrow> io_error + string" where
  "read_text w path =
     (case files w path of
        None \<Rightarrow> Inl FileNotFound
      | Some Undecodable \<Rightarrow> Inl DecodeError
      | Some (Text content) \<Rightarrow> Inr content)"

text \<open>\<^verbatim>\<open>with open(path, 'w', encoding='utf-8') as f: f.write(text)\<close>.\<close>

definition write_text :: "world \<Rightarrow> string \<Rightarrow> string \<Rightarrow> io_error + world" where
  "write_text w path text =
     (if path \<in> unwritable w then Inl WriteDenied
      else Inr (w\<lparr>files := (files w)(path \<mapsto> Text text)\<rparr>))"

text \<open>The whole script, top to bottom.\<close>

definition extract_website_schema :: "world \<Rightarrow> (io_error + unit) \<times> world" where
  "extract_website_schema w =
     (case read_text w input_path of
        Inl e \<Rightarrow> (Inl e, w)
      | Inr content \<Rightarrow>
          let lines = split_nl content;
              final = scrubber (block_filter lines)
          in (case write_text w output_path (join_nl final) of
                Inl e \<Rightarrow> (Inl e, w)
              | Inr w' \<Rightarrow>
                  (Inr (),
                   w'\<lparr>console := console w' @
                        [Message ''Website schema extracted successfully'',
                         TotalLines (length final)]\<rparr>)))"

section \<open>Views of the two loops used in the proofs\<close>

text \<open>The net number of braces opened by a run of lines: the sum of
  \<^verbatim>\<open>line.count('{') - line.count('}')\<close>.\<close>

definition brace_delta :: "string list \<Rightarrow> int" where
  "brace_delta ls = (\<Sum>l\<leftarrow>ls. count_open l - count_close l)"

text \<open>The first loop reads only \<^verbatim>\<open>skip_model\<close> and \<^verbatim>\<open>brace_count\<close>; \<open>mode_step\<close> is what
  one iteration does to this pair, \<open>emitted\<close> tells whether it appends the line.\<close>

definition mode_step :: "bool \<times> int \<Rightarrow> string \<Rightarrow> bool \<times> int" where
  "mode_step m l =
     (case model_match l of
        Some n \<Rightarrow> (n \<in> exclude_models, 1)
      | None \<Rightarrow>
          if fst m
          then (0 < snd m + count_open l - count_close l, snd m + count_open l - count_close l)
          else m)"

definition emitted :: "bool \<times> int \<Rightarrow> string \<Rightarrow> bool" where
  "emitted m l = (case model_match l of Some n \<Rightarrow> n \<notin> exclude_models | None \<Rightarrow> \<not> fst m)"

fun mode_after :: "bool \<times> int \<Rightarrow> string list \<Rightarrow> bool \<times> int" where
  "mode_after m [] = m"
| "mode_after m (l # ls) = mode_after (mode_step m l) ls"

fun emit :: "bool \<times> int \<Rightarrow> string list \<Rightarrow> string list" where
  "emit m [] = []"
| "emit m (l # ls) =
     (if emitted m l then l # emit (mode_step m l) ls else emit (mode_step m l) ls)"

text \<open>The second loop reads only \<^verbatim>\<open>in_crit_user\<close>: \<open>scrub_out\<close> is what it appends from a
  given flag on, \<open>scrub_mode\<close> the flag it ends with, \<open>closes_target\<close> whether it ever takes
  the branch that inserts the note.\<close>

fun scrub_out :: "bool \<Rightarrow> string list \<Rightarrow> string list" where
  "scrub_out b [] = []"
| "scrub_out b (l # ls) =
     (if prefix target_prefix l then l # scrub_out True ls
      else if b \<and> strip l = ''}'' then [] # note1 # note2 # l # scrub_out False ls
      else if b \<and> has_forbidden l then scrub_out b ls
      else l # scrub_out b ls)"

fun scrub_mode :: "bool \<Rightarrow> string list \<Rightarrow> bool" where
  "scrub_mode b [] = b"
| "scrub_mode b (l # ls) =
     (if prefix target_prefix l then scrub_mode True ls
      else if b \<and> strip l = ''}'' then scrub_mode False ls
      else scrub_mode b ls)"

fun closes_target :: "bool \<Rightarrow> string list \<Rightarrow> bool" where
  "closes_target b [] = False"
| "closes_target b (l # ls) =
     (if prefix target_prefix l then closes_target True ls
      else if b \<and> strip l = ''}'' then True
      else closes_target b ls)"

section \<open>The block filter: basic facts\<close>

lemma filter_step_mode:
  "(skip_model (filter_step s l), brace_count (filter_step s l)) =
     mode_step (skip_model s, brace_count s) l"
  by (simp add: filter_step_def mode_step_def Let_def split: option.splits)

lemma filter_step_output:
  "output_lines (filter_step s l) =
     (if emitted (skip_model s, brace_count s) l then output_lines s @ [l] else output_lines s)"
  by (simp add: filter_step_def emitted_def Let_def split: option.splits)

lemma filter_loop_mode:
  "(skip_model (filter_loop s ls), brace_count (filter_loop s ls)) =
     mode_after (skip_model s, brace_count s) ls"
proof (induction ls arbitrary: s)
  case Nil
  show ?case by simp
next
  case (Cons l ls)
  show ?case using Cons.IH [of "filter_step s l"] by (simp add: filter_step_mode)
qed

lemma filter_loop_output:
  "output_lines (filter_loop s ls) = output_lines s @ emit (skip_model s, brace_count s) ls"
proof (induction ls arbitrary: s)
  case Nil
  show ?case by simp
next
  case (Cons l ls)
  show ?case using Cons.IH [of "filter_step s l"]
    by (simp add: filter_step_mode filter_step_output)
qed

lemma block_filter_emit: "block_filter ls = emit (False, 0) ls"
  by (simp add: block_filter_def filter_loop_output filter_init_def)

lemma mode_after_append: "mode_after m (xs @ ys) = mode_after (mode_after m xs) ys"
  by (induction xs arbitrary: m) simp_all

lemma emit_append: "emit m (xs @ ys) = emit m xs @ emit (mode_after m xs) ys"
  by (induction xs arbitrary: m) simp_all

lemma brace_delta_Nil: "brace_delta [] = 0"
  by (simp add: brace_delta_def)

lemma brace_delta_Cons: "brace_delta (l # ls) = count_open l - count_close l + brace_delta ls"
  by (simp add: brace_delta_def)

lemma emit_subseq: "subseq (emit m ls) ls"
proof (induction ls arbitrary: m)
  case Nil
  show ?case by simp
next
  case (Cons l ls)
  have "subseq (emit (mode_step m l) ls) ls" by (rule Cons.IH)
  then show ?case by (auto intro: list_emb_Cons)
qed

lemma emit_not_skipping: "emit (False, b) ls = emit (False, c) ls"
proof (induction ls arbitrary: b c)
  case Nil
  show ?case by simp
next
  case (Cons l ls)
  show ?case
  proof (cases "model_match l")
    case None
    then show ?thesis using Cons.IH [of b c] by (simp add: emitted_def mode_step_def)
  next
    case (Some n)
    then show ?thesis by (simp add: emitted_def mode_step_def)
  qed
qed

lemma skip_body:
  assumes "\<forall>l\<in>set body. model_match l = None"
    and "c \<le> b"
    and "\<forall>k<length body. 0 < c + brace_delta (take k body)"
  shows "emit (True, b) body = []"
  using assms
proof (induction body arbitrary: b c)
  case Nil
  show ?case by simp
next
  case (Cons l ls)
  from Cons.prems(3) have pos: "0 < c" by (auto simp: brace_delta_Nil)
  have nd: "model_match l = None" using Cons.prems(1) by simp
  show ?case
  proof (cases ls)
    case Nil
    then show ?thesis using nd by (simp add: emitted_def mode_step_def)
  next
    case (Cons l' ls')
    have "\<forall>k<length ls. 0 < (c + (count_open l - count_close l)) + brace_delta (take k ls)"
    proof (intro allI impI)
      fix k assume "k < length ls"
      then have "Suc k < length (l # ls)" by simp
      from Cons.prems(3) [rule_format, OF this] show "0 < (c + (count_open l - count_close l)) + brace_delta (take k ls)"
        by (simp add: brace_delta_Cons)
    qed
    moreover have "c + (count_open l - count_close l) \<le> b + (count_open l - count_close l)"
      using Cons.prems(2) by simp
    moreover have "\<forall>l\<in>set ls. model_match l = None" using Cons.prems(1) by simp
    ultimately have ih: "emit (True, b + (count_open l - count_close l)) ls = []"
      using Cons.IH by blast
    have "0 < c + (count_open l - count_close l)"
      using Cons.prems(3) [rule_format, of 1] Cons by (simp add: brace_delta_Cons brace_delta_Nil)
    then have "0 < b + count_open l - count_close l" using Cons.prems(2) by simp
    then show ?thesis using nd ih by (simp add: emitted_def mode_step_def algebra_simps)
  qed
qed

lemma skip_body_mode:
  assumes "\<forall>l\<in>set body. model_match l = None"
    and "\<forall>k<length body. 0 < b + brace_delta (take k body)"
  shows "mode_after (True, b) body = (body = [] \<or> 0 < b + brace_delta body, b + brace_delta body)"
  using assms
proof (induction body arbitrary: b)
  case Nil
  show ?case by (simp add: brace_delta_Nil)
next
  case (Cons l ls)
  have nd: "model_match l = None" using Cons.prems(1) by simp
  have step: "mode_step (True, b) l =
      (0 < b + (count_open l - count_close l), b + (count_open l - count_close l))"
    using nd by (simp add: mode_step_def algebra_simps)
  show ?case
  proof (cases ls)
    case Nil
    then show ?thesis using step by (simp add: brace_delta_Cons brace_delta_Nil)
  next
    case (Cons l' ls')
    have pos: "0 < b + (count_open l - count_close l)"
      using Cons.prems(2) [rule_format, of 1] Cons by (simp add: brace_delta_Cons brace_delta_Nil)
    have "\<forall>k<length ls. 0 < (b + (count_open l - count_close l)) + brace_delta (take k ls)"
    proof (intro allI impI)
      fix k assume "k < length ls"
      then have "Suc k < length (l # ls)" by simp
      from Cons.prems(2) [rule_format, OF this]
      show "0 < (b + (count_open l - count_close l)) + brace_delta (take k ls)"
        by (simp add: brace_delta_Cons)
    qed
    moreover have "\<forall>l\<in>set ls. model_match l = None" using Cons.prems(1) by simp
    ultimately have ih: "mode_after (True, b + (count_open l - count_close l)) ls =
        (ls = [] \<or> 0 < b + (count_open l - count_close l) + brace_delta ls,
         b + (count_open l - count_close l) + brace_delta ls)"
      using Cons.IH by blast
    have ne: "ls \<noteq> []" using Cons by simp
    show ?thesis using step pos ih ne by (simp add: brace_delta_Cons add.assoc)
  qed
qed

lemma excluded_declaration:
  assumes "model_match d = Some name" and "name \<in> exclude_models"
  shows "mode_step m d = (True, 1)" and "\<not> emitted m d"
  using assms by (simp_all add: mode_step_def emitted_def)

lemma filter_loop_skip: "skip_model (filter_loop filter_init ls) = fst (mode_after (False, 0) ls)"
  using filter_loop_mode [of filter_init ls, symmetric] by (simp add: filter_init_def)

lemma not_skipping_stays:
  assumes "\<forall>l\<in>set ls. model_match l = None"
  shows "mode_after (False, b) ls = (False, b)"
  using assms by (induction ls) (simp_all add: mode_step_def)

lemma skipping_to_end:
  assumes "\<forall>l\<in>set post. model_match l = None"
  shows "fst (mode_after (True, b) post) \<longleftrightarrow>
           (\<forall>k<length post. 0 < b + brace_delta (take (Suc k) post))"
  using assms
proof (induction post arbitrary: b)
  case Nil
  show ?case by simp
next
  case (Cons l ls)
  let ?b = "b + (count_open l - count_close l)"
  have nd: "model_match l = None" and rest: "\<forall>l\<in>set ls. model_match l = None"
    using Cons.prems by simp_all
  have step: "mode_step (True, b) l = (0 < ?b, ?b)"
    using nd by (simp add: mode_step_def algebra_simps)
  have shift: "(\<forall>k<length (l # ls). 0 < b + brace_delta (take (Suc k) (l # ls))) \<longleftrightarrow>
      0 < ?b \<and> (\<forall>k<length ls. 0 < ?b + brace_delta (take (Suc k) ls))"
    by (simp add: All_less_Suc2 brace_delta_Cons brace_delta_Nil add.assoc)
  show ?case
  proof (cases "0 < ?b")
    case True
    then show ?thesis using step shift Cons.IH [OF rest, of ?b] by simp
  next
    case False
    then show ?thesis using step shift not_skipping_stays [OF rest, of ?b] by simp
  qed
qed

section \<open>Claims about the block filter\<close>

text \<open>
  C1. A top-level block of an excluded model is a declaration line \<open>d\<close> whose name is in
  \<open>exclude_models\<close>, followed by lines \<open>body\<close> that lie inside the block: before each of
  them the braces opened since the declaration outnumber the braces closed; the closing
  line is the last such line. The claim holds for the blocks that meet two conditions. No
  line of \<open>body\<close> matches the declaration pattern: such a line resets the scanner, whatever
  the depth. The declaration line opens no brace besides the block's own (at most one more
  \<^verbatim>\<open>{\<close> than \<^verbatim>\<open>}\<close>): the scanner sets the depth to 1 there without counting. Then no line
  of \<open>d # body\<close> reaches the output of the block filter: the output is the output for the
  lines before the block followed by lines taken, in order, from the lines after it. When
  the block is closed by its last line, the lines after it are filtered as a document of
  their own.
\<close>

theorem excluded_block_removed:
  assumes decl: "model_match d = Some name" and excl: "name \<in> exclude_models"
    and body: "\<forall>l\<in>set body. model_match l = None"
    and own: "brace_delta [d] \<le> 1"
    and inside: "\<forall>k<length body. 0 < brace_delta (d # take k body)"
  shows "(\<exists>post'. subseq post' post \<and>
            block_filter (pre @ d # body @ post) = block_filter pre @ post') \<and>
         (brace_delta [d] = 1 \<and> body \<noteq> [] \<and> brace_delta (d # body) \<le> 0 \<longrightarrow>
            block_filter (pre @ d # body @ post) = block_filter pre @ block_filter post)"
proof -
  let ?m = "mode_after (False, 0) pre"
  let ?m' = "mode_after (True, 1) body"
  have inside': "\<forall>k<length body. 0 < brace_delta [d] + brace_delta (take k body)"
    using inside by (simp add: brace_delta_Cons brace_delta_Nil)
  have dropped: "emit (True, 1) body = []"
    by (rule skip_body [OF body own inside'])
  have out: "block_filter (pre @ d # body @ post) = block_filter pre @ emit ?m' post"
    using excluded_declaration [OF decl excl, of ?m] dropped
    by (simp add: block_filter_emit emit_append)
  have first: "\<exists>post'. subseq post' post \<and>
      block_filter (pre @ d # body @ post) = block_filter pre @ post'"
    using out emit_subseq [of ?m' post] by blast
  have second: "block_filter (pre @ d # body @ post) = block_filter pre @ block_filter post"
    if closed: "brace_delta [d] = 1 \<and> body \<noteq> [] \<and> brace_delta (d # body) \<le> 0"
  proof -
    have "\<forall>k<length body. 0 < 1 + brace_delta (take k body)"
      using inside' closed by simp
    from skip_body_mode [OF body this] closed
    have "fst ?m' = False"
      by (simp add: brace_delta_Cons brace_delta_Nil)
    then have "emit ?m' post = emit (False, 0) post"
      using emit_not_skipping [of "snd ?m'" post 0] by (cases ?m') simp
    then show ?thesis using out by (simp add: block_filter_emit)
  qed
  show ?thesis using first second by blast
qed

theorem excluded_block_removed_witness:
  "block_filter ([''model A {'', ''  x Int'', ''}''] @ ''model RpgPlayer {'' # [''  y String'', ''}'']
       @ [''model B {'', ''  z Int'', ''}''])
     = block_filter [''model A {'', ''  x Int'', ''}''] @ block_filter [''model B {'', ''  z Int'', ''}'']"
proof -
  have h1: "model_match ''model RpgPlayer {'' = Some ''RpgPlayer''" by code_simp
  have h2: "''RpgPlayer'' \<in> exclude_models" by code_simp
  have h3: "\<forall>l\<in>set [''  y String'', ''}'']. model_match l = None" by code_simp
  have h4: "brace_delta [''model RpgPlayer {''] \<le> 1" by code_simp
  have h5: "\<forall>k<length [''  y String'', ''}'']. 0 < brace_delta (''model RpgPlayer {'' # take k [''  y String'', ''}''])"
  proof (intro allI impI)
    fix k :: nat assume "k < length [''  y String'', ''}'']"
    then have "k = 0 \<or> k = 1" by auto
    moreover have "0 < brace_delta (''model RpgPlayer {'' # take 0 [''  y String'', ''}''])" by code_simp
    moreover have "0 < brace_delta (''model RpgPlayer {'' # take 1 [''  y String'', ''}''])" by code_simp
    ultimately show "0 < brace_delta (''model RpgPlayer {'' # take k [''  y String'', ''}''])" by auto
  qed
  have h6: "brace_delta [''model RpgPlayer {''] = 1 \<and> [''  y String'', ''}''] \<noteq> []
      \<and> brace_delta (''model RpgPlayer {'' # [''  y String'', ''}'']) \<le> 0" by code_simp
  from excluded_block_removed [OF h1 h2 h3 h4 h5, of "[''model B {'', ''  z Int'', ''}'']" "[''model A {'', ''  x Int'', ''}'']"] h6
  show ?thesis by blast
qed

text \<open>C1 as stated fails for an excluded block that holds a declaration line: the block
  of \<^verbatim>\<open>RpgPlayer\<close> runs from its declaration to the last line, where the brace count
  returns to zero, yet the declaration of \<^verbatim>\<open>Inner\<close> ends the skip and the three lines
  after the first are emitted, the block's closing line among them.\<close>

theorem nested_declaration_ends_excluded_block:
  "model_match ''model RpgPlayer {'' = Some ''RpgPlayer'' \<and>
   ''RpgPlayer'' \<in> exclude_models \<and>
   brace_delta [''model RpgPlayer {''] = 1 \<and>
   brace_delta [''model RpgPlayer {'', ''model Inner {''] = 2 \<and>
   brace_delta [''model RpgPlayer {'', ''model Inner {'', ''}''] = 1 \<and>
   brace_delta [''model RpgPlayer {'', ''model Inner {'', ''}'', ''}''] = 0 \<and>
   block_filter [''model RpgPlayer {'', ''model Inner {'', ''}'', ''}'']
     = [''model Inner {'', ''}'', ''}'']"
  by code_simp

text \<open>
  C9. The declaration pattern is tested before skip mode. Whatever the state of the scanner
  (also in skip mode with any brace depth), a line matching \<^verbatim>\<open>model <Name> {\<close> sets the brace
  depth to 1 and the current model to the name; if the name is excluded the scanner is in
  skip mode afterwards and nothing is emitted, otherwise skip mode is off and the line is
  appended to the output.
\<close>

theorem declaration_resets_scanner:
  assumes "model_match line = Some name"
  shows "skip_model (filter_step s line) = (name \<in> exclude_models) \<and>
         brace_count (filter_step s line) = 1 \<and>
         current_model (filter_step s line) = Some name \<and>
         output_lines (filter_step s line) =
           (if name \<in> exclude_models then output_lines s else output_lines s @ [line])"
  using assms by (simp add: filter_step_def)

theorem declaration_resets_scanner_witness:
  "skip_model (filter_loop filter_init [''model RpgPlayer {'', ''  meta {'']) \<and>
   brace_count (filter_loop filter_init [''model RpgPlayer {'', ''  meta {'']) = 2 \<and>
   \<not> skip_model (filter_step (filter_loop filter_init [''model RpgPlayer {'', ''  meta {'']) ''model A {'') \<and>
   brace_count (filter_step (filter_loop filter_init [''model RpgPlayer {'', ''  meta {'']) ''model A {'') = 1 \<and>
   output_lines (filter_step (filter_loop filter_init [''model RpgPlayer {'', ''  meta {'']) ''model A {'')
     = [''model A {'']"
proof -
  have h: "model_match ''model A {'' = Some ''A''" by code_simp
  have n: "''A'' \<notin> exclude_models" by code_simp
  have before: "skip_model (filter_loop filter_init [''model RpgPlayer {'', ''  meta {'']) \<and>
      brace_count (filter_loop filter_init [''model RpgPlayer {'', ''  meta {'']) = 2 \<and>
      output_lines (filter_loop filter_init [''model RpgPlayer {'', ''  meta {'']) = []"
    by code_simp
  from declaration_resets_scanner [OF h, of "filter_loop filter_init [''model RpgPlayer {'', ''  meta {'']"]
    n before
  show ?thesis by simp
qed

text \<open>
  C5. An excluded block declared and closed on one line, \<^verbatim>\<open>model RpgPlayer { }\<close>: the line is
  dropped, but its closing brace is never counted (the declaration branch sets the depth to
  1 and continues), so skip mode persists and the lines that follow are dropped as well;
  here a whole \<^verbatim>\<open>enum\<close> block, with skip mode still active at the end of the input.
\<close>

theorem one_line_excluded_block_keeps_skipping:
  "block_filter [''model RpgPlayer { }'', ''enum Role {'', ''  ADMIN'', ''}''] = [] \<and>
   skip_model (filter_loop filter_init [''model RpgPlayer { }'', ''enum Role {'', ''  ADMIN'', ''}''])"
  by code_simp

text \<open>
  C6. Skip mode can be active after the last line: the scanner has no check at the end of
  the input. For a document whose excluded declaration lines open their own brace and no
  other (one more \<^verbatim>\<open>{\<close> than \<^verbatim>\<open>}\<close> on the line), skip mode is active at the end exactly when
  the document ends inside an excluded block: some excluded declaration is followed by no
  further declaration line, and the braces opened from it on outnumber the braces closed
  after the declaration line and after every later line up to the end of the input.
\<close>

theorem skip_at_end_iff_unterminated:
  assumes own: "\<forall>l\<in>set lines. \<forall>n. model_match l = Some n \<and> n \<in> exclude_models \<longrightarrow> brace_delta [l] = 1"
  shows "skip_model (filter_loop filter_init lines) \<longleftrightarrow>
     (\<exists>pre d name post. lines = pre @ d # post \<and>
        model_match d = Some name \<and> name \<in> exclude_models \<and>
        (\<forall>l\<in>set post. model_match l = None) \<and>
        (\<forall>k\<le>length post. 0 < brace_delta (d # take k post)))"
  (is "?L \<longleftrightarrow> ?R")
proof
  assume L: ?L
  have "\<exists>l\<in>set lines. model_match l \<noteq> None"
  proof (rule ccontr)
    assume "\<not> (\<exists>l\<in>set lines. model_match l \<noteq> None)"
    then have "\<forall>l\<in>set lines. model_match l = None" by simp
    from not_skipping_stays [OF this, of 0] L show False by (simp add: filter_loop_skip)
  qed
  from split_list_last_prop [OF this]
  obtain pre d post where split: "lines = pre @ d # post"
    and d: "model_match d \<noteq> None" and post: "\<forall>l\<in>set post. model_match l = None"
    by auto
  from d obtain name where name: "model_match d = Some name" by auto
  have mode: "mode_after (False, 0) lines = mode_after (name \<in> exclude_models, 1) post"
    using name by (simp add: split mode_after_append mode_step_def)
  have excl: "name \<in> exclude_models"
  proof (rule ccontr)
    assume "name \<notin> exclude_models"
    then show False using mode L not_skipping_stays [OF post, of 1] by (simp add: filter_loop_skip)
  qed
  have one: "brace_delta [d] = 1" using own name excl by (simp add: split)
  have depth: "\<forall>k<length post. 0 < 1 + brace_delta (take (Suc k) post)"
    using L mode excl skipping_to_end [OF post, of 1] by (simp add: filter_loop_skip)
  have "\<forall>k\<le>length post. 0 < brace_delta (d # take k post)"
  proof (intro allI impI)
    fix k assume k: "k \<le> length post"
    show "0 < brace_delta (d # take k post)"
    proof (cases k)
      case 0
      then show ?thesis using one by simp
    next
      case (Suc j)
      then have "j < length post" using k by simp
      from depth [rule_format, OF this] show ?thesis
        using one Suc by (simp add: brace_delta_Cons [of d] brace_delta_Nil)
    qed
  qed
  then show ?R using split name excl post by blast
next
  assume ?R
  then obtain pre d name post where split: "lines = pre @ d # post"
    and name: "model_match d = Some name" and excl: "name \<in> exclude_models"
    and post: "\<forall>l\<in>set post. model_match l = None"
    and depth: "\<forall>k\<le>length post. 0 < brace_delta (d # take k post)"
    by blast
  have one: "brace_delta [d] = 1" using own name excl by (simp add: split)
  have "\<forall>k<length post. 0 < 1 + brace_delta (take (Suc k) post)"
  proof (intro allI impI)
    fix k assume "k < length post"
    then have "Suc k \<le> length post" by simp
    from depth [rule_format, OF this] show "0 < 1 + brace_delta (take (Suc k) post)"
      using one by (simp add: brace_delta_Cons [of d] brace_delta_Nil)
  qed
  then have "fst (mode_after (True, 1) post)"
    using skipping_to_end [OF post, of 1] by simp
  moreover have "mode_after (False, 0) lines = mode_after (True, 1) post"
    using name excl by (simp add: split mode_after_append mode_step_def)
  ultimately show ?L by (simp add: filter_loop_skip)
qed

theorem skip_at_end_iff_unterminated_witness:
  "skip_model (filter_loop filter_init [''model A {'', ''}'', ''model RpgWorld {'', ''  id String''])"
proof -
  have m1: "model_match ''model A {'' = Some ''A''" by code_simp
  have m2: "model_match ''}'' = None" by code_simp
  have m3: "model_match ''model RpgWorld {'' = Some ''RpgWorld''" by code_simp
  have m4: "model_match ''  id String'' = None" by code_simp
  have e1: "''A'' \<notin> exclude_models" by code_simp
  have e3: "''RpgWorld'' \<in> exclude_models" by code_simp
  have b3: "brace_delta [''model RpgWorld {''] = 1" by code_simp
  have own: "\<forall>l\<in>set [''model A {'', ''}'', ''model RpgWorld {'', ''  id String''].
      \<forall>n. model_match l = Some n \<and> n \<in> exclude_models \<longrightarrow> brace_delta [l] = 1"
    using m1 m2 m3 m4 e1 b3 by simp
  have depth: "\<forall>k\<le>length [''  id String'']. 0 < brace_delta (''model RpgWorld {'' # take k [''  id String''])"
  proof (intro allI impI)
    fix k :: nat assume "k \<le> length [''  id String'']"
    then have "k = 0 \<or> k = 1" by auto
    moreover have "0 < brace_delta (''model RpgWorld {'' # take 0 [''  id String''])" by code_simp
    moreover have "0 < brace_delta (''model RpgWorld {'' # take 1 [''  id String''])" by code_simp
    ultimately show "0 < brace_delta (''model RpgWorld {'' # take k [''  id String''])" by auto
  qed
  have "[''model A {'', ''}'', ''model RpgWorld {'', ''  id String'']
          = [''model A {'', ''}''] @ ''model RpgWorld {'' # [''  id String''] \<and>
        model_match ''model RpgWorld {'' = Some ''RpgWorld'' \<and> ''RpgWorld'' \<in> exclude_models \<and>
        (\<forall>l\<in>set [''  id String'']. model_match l = None) \<and>
        (\<forall>k\<le>length [''  id String'']. 0 < brace_delta (''model RpgWorld {'' # take k [''  id String'']))"
    using m3 e3 m4 depth by simp
  then have "\<exists>pre d name post.
      [''model A {'', ''}'', ''model RpgWorld {'', ''  id String''] = pre @ d # post \<and>
      model_match d = Some name \<and> name \<in> exclude_models \<and>
      (\<forall>l\<in>set post. model_match l = None) \<and>
      (\<forall>k\<le>length post. 0 < brace_delta (d # take k post))"
    by blast
  with skip_at_end_iff_unterminated [OF own] show ?thesis by simp
qed

text \<open>C6 as stated fails on a truncated excluded block: the input ends in skip mode.\<close>

theorem truncated_block_leaves_skip_mode:
  "skip_model (filter_loop filter_init [''model RpgPlayer {'', ''  id Int''])"
  by code_simp

section \<open>The relation scrubber: basic facts\<close>

lemma scrub_step_final:
  "final_lines (scrub_step s l) = final_lines s @ scrub_out (in_crit_user s) [l]"
  by (simp add: scrub_step_def)

lemma scrub_step_mode:
  "in_crit_user (scrub_step s l) = scrub_mode (in_crit_user s) [l]"
  by (simp add: scrub_step_def)

lemma scrub_out_Cons: "scrub_out b (l # ls) = scrub_out b [l] @ scrub_out (scrub_mode b [l]) ls"
  by simp

lemma scrub_mode_Cons: "scrub_mode b (l # ls) = scrub_mode (scrub_mode b [l]) ls"
  by simp

lemma scrub_loop_mode: "in_crit_user (scrub_loop s ls) = scrub_mode (in_crit_user s) ls"
proof (induction ls arbitrary: s)
  case Nil
  show ?case by simp
next
  case (Cons l ls)
  show ?case using Cons.IH [of "scrub_step s l"] scrub_mode_Cons [of "in_crit_user s" l ls]
    by (simp only: scrub_loop.simps scrub_step_mode)
qed

lemma scrub_loop_final:
  "final_lines (scrub_loop s ls) = final_lines s @ scrub_out (in_crit_user s) ls"
proof (induction ls arbitrary: s)
  case Nil
  show ?case by simp
next
  case (Cons l ls)
  show ?case using Cons.IH [of "scrub_step s l"] scrub_out_Cons [of "in_crit_user s" l ls]
    by (simp only: scrub_loop.simps scrub_step_mode scrub_step_final append_assoc)
qed

lemma scrubber_out: "scrubber ls = scrub_out False ls"
  by (simp add: scrubber_def scrub_loop_final scrub_init_def)

lemma scrub_mode_append: "scrub_mode b (xs @ ys) = scrub_mode (scrub_mode b xs) ys"
  by (induction xs arbitrary: b) simp_all

lemma scrub_out_append: "scrub_out b (xs @ ys) = scrub_out b xs @ scrub_out (scrub_mode b xs) ys"
  by (induction xs arbitrary: b) simp_all

lemma scrub_untargeted:
  assumes "\<forall>l\<in>set ls. \<not> prefix target_prefix l"
  shows "scrub_out False ls = ls" and "scrub_mode False ls = False"
  using assms by (induction ls) simp_all

lemma strip_keeps_first:
  assumes "\<not> is_space c"
  shows "\<exists>t. strip (c # cs) = c # t"
proof -
  have "dropWhile is_space (rev cs @ [c]) \<noteq> []"
    using assms by (simp add: dropWhile_append)
  moreover have "last (dropWhile is_space (rev cs @ [c])) = c"
    using assms by (simp add: dropWhile_append)
  ultimately obtain zs where "dropWhile is_space (rev cs @ [c]) = zs @ [c]"
    by (metis append_butlast_last_id)
  then show ?thesis using assms by (simp add: strip_def)
qed

lemma closing_not_target:
  assumes "strip l = ''}''"
  shows "\<not> prefix target_prefix l"
proof
  assume "prefix target_prefix l"
  then obtain cs where l: "l = CHR ''m'' # cs"
    by (auto simp: target_prefix_def prefix_def)
  have "\<not> is_space (CHR ''m'')" by (simp add: is_space_def)
  from strip_keeps_first [OF this, of cs] assms show False by (auto simp: l)
qed

lemma strip_chars: "set l \<subseteq> set (strip l) \<union> {c. is_space c}"
proof -
  let ?y = "dropWhile is_space l"
  have "set l = set (takeWhile is_space l) \<union> set ?y"
    by (metis set_append takeWhile_dropWhile_id)
  moreover have "set (takeWhile is_space l) \<subseteq> {c. is_space c}"
    by (auto dest: set_takeWhileD)
  moreover have "set (rev ?y) = set (takeWhile is_space (rev ?y)) \<union> set (dropWhile is_space (rev ?y))"
    by (metis set_append takeWhile_dropWhile_id)
  moreover have "set (takeWhile is_space (rev ?y)) \<subseteq> {c. is_space c}"
    by (auto dest: set_takeWhileD)
  ultimately show ?thesis by (auto simp: strip_def)
qed

lemma forbidden_has_r: "has_forbidden l \<Longrightarrow> CHR ''r'' \<in> set l"
proof -
  assume "has_forbidden l"
  then obtain x where x: "x \<in> set forbidden" and sub: "sublist x l"
    by (auto simp: has_forbidden_def list_ex_iff)
  have "\<forall>x\<in>set forbidden. CHR ''r'' \<in> set x" by (simp add: forbidden_def)
  then have "CHR ''r'' \<in> set x" using x by blast
  then show ?thesis using sub by (auto simp: sublist_def)
qed

lemma closing_not_forbidden:
  assumes "strip l = ''}''"
  shows "\<not> has_forbidden l"
proof
  assume "has_forbidden l"
  then have "CHR ''r'' \<in> set l" by (rule forbidden_has_r)
  then have "CHR ''r'' \<in> set (strip l) \<union> {c. is_space c}" using strip_chars by blast
  then show False using assms by (simp add: is_space_def)
qed

lemma scrub_target_body:
  assumes "\<forall>l\<in>set body. strip l \<noteq> ''}''"
  shows "scrub_out True body = filter (\<lambda>l. prefix target_prefix l \<or> \<not> has_forbidden l) body"
    and "scrub_mode True body = True"
  using assms by (induction body) simp_all

section \<open>Claims about the relation scrubber\<close>

text \<open>
  C2. The target block in the output of the block filter: the first line \<open>d\<close> that starts
  with \<^verbatim>\<open>model CritUser\<close>, the lines \<open>body\<close> up to the first line \<open>c\<close> whose trimmed content is
  \<^verbatim>\<open>}\<close>, and \<open>c\<close>. In the final output the lines before the block and \<open>d\<close> are unchanged, a
  line of \<open>body\<close> is retained exactly when it holds no forbidden fragment or itself starts
  with \<^verbatim>\<open>model CritUser\<close>, and three lines are inserted immediately before \<open>c\<close>: an empty
  line and the two lines of the explanatory comment. When no later line starts with
  \<^verbatim>\<open>model CritUser\<close>, the lines after the block are unchanged, so the insertion happens once.
\<close>

theorem target_block_scrubbed:
  assumes out: "block_filter lines = pre @ d # body @ c # rest"
    and first: "\<forall>l\<in>set pre. \<not> prefix target_prefix l"
    and decl: "prefix target_prefix d"
    and body: "\<forall>l\<in>set body. strip l \<noteq> ''}''"
    and closing: "strip c = ''}''"
  shows "transform lines =
           pre @ d # filter (\<lambda>l. prefix target_prefix l \<or> \<not> has_forbidden l) body
             @ [[], note1, note2, c] @ scrubber rest \<and>
         ((\<forall>l\<in>set rest. \<not> prefix target_prefix l) \<longrightarrow> scrubber rest = rest)"
proof -
  have c: "\<not> prefix target_prefix c" by (rule closing_not_target [OF closing])
  have "scrub_out False (pre @ d # body @ c # rest) =
      pre @ d # scrub_out True (body @ c # rest)"
    using decl by (simp add: scrub_out_append scrub_untargeted [OF first])
  also have "scrub_out True (body @ c # rest) =
      filter (\<lambda>l. prefix target_prefix l \<or> \<not> has_forbidden l) body
        @ [[], note1, note2, c] @ scrub_out False rest"
    using c closing by (simp add: scrub_out_append scrub_target_body [OF body])
  finally have "transform lines =
      pre @ d # filter (\<lambda>l. prefix target_prefix l \<or> \<not> has_forbidden l) body
        @ [[], note1, note2, c] @ scrubber rest"
    by (simp add: transform_def out scrubber_out)
  moreover have "(\<forall>l\<in>set rest. \<not> prefix target_prefix l) \<longrightarrow> scrubber rest = rest"
    by (simp add: scrubber_out scrub_untargeted)
  ultimately show ?thesis by blast
qed

theorem target_block_scrubbed_witness:
  "transform [''model CritUser {'', ''  id String'', ''  rpgPlayer RpgPlayer?'', ''}'', ''enum Role {'', ''}'']
     = [''model CritUser {'', ''  id String'', [], note1, note2, ''}'', ''enum Role {'', ''}'']"
proof -
  have out: "block_filter [''model CritUser {'', ''  id String'', ''  rpgPlayer RpgPlayer?'', ''}'', ''enum Role {'', ''}'']
      = [] @ ''model CritUser {'' # [''  id String'', ''  rpgPlayer RpgPlayer?''] @ ''}'' # [''enum Role {'', ''}'']"
    by code_simp
  have first: "\<forall>l\<in>set []. \<not> prefix target_prefix l" by simp
  have decl: "prefix target_prefix ''model CritUser {''" by code_simp
  have body: "\<forall>l\<in>set [''  id String'', ''  rpgPlayer RpgPlayer?'']. strip l \<noteq> ''}''" by code_simp
  have closing: "strip ''}'' = ''}''" by code_simp
  have rest: "\<forall>l\<in>set [''enum Role {'', ''}'']. \<not> prefix target_prefix l" by code_simp
  have kept: "filter (\<lambda>l. prefix target_prefix l \<or> \<not> has_forbidden l) [''  id String'', ''  rpgPlayer RpgPlayer?'']
      = [''  id String'']" by code_simp
  from target_block_scrubbed [OF out first decl body closing] rest kept
  show ?thesis by simp
qed

text \<open>C2 as stated fails twice on one document: a retained line of the block holds the
  fragment \<^verbatim>\<open>RpgWorld\<close>, and three lines are inserted, not two.\<close>

theorem target_block_three_lines_and_kept_fragment:
  "transform [''model CritUser {'', ''model CritUserRpgWorld {'', ''}'']
     = [''model CritUser {'', ''model CritUserRpgWorld {'', [], note1, note2, ''}''] \<and>
   has_forbidden ''model CritUserRpgWorld {'' \<and>
   length (transform [''model CritUser {'', ''model CritUserRpgWorld {'', ''}''])
     \<noteq> length [''model CritUser {'', ''model CritUserRpgWorld {'', ''}''] + 2"
  by code_simp

text \<open>
  C10. The scrubber finds the target by a raw prefix test: a line that starts with
  \<^verbatim>\<open>model CritUser\<close> (so also \<^verbatim>\<open>model CritUserProfile {\<close>) is appended and turns scrubbing mode
  on, in any state. In scrubbing mode, a line that does not itself start with
  \<^verbatim>\<open>model CritUser\<close> and holds a forbidden fragment anywhere, also inside a comment, is
  dropped: the state is unchanged.
\<close>

theorem prefix_test_and_fragment_filter:
  "(prefix target_prefix line \<longrightarrow>
      in_crit_user (scrub_step s line) \<and> final_lines (scrub_step s line) = final_lines s @ [line]) \<and>
   (in_crit_user s \<and> \<not> prefix target_prefix line \<and> has_forbidden line \<longrightarrow>
      scrub_step s line = s)"
  using closing_not_forbidden [of line] by (auto simp: scrub_step_def)

theorem prefix_test_and_fragment_filter_witness:
  "scrubber [''model CritUserProfile {'', ''  bio String // was RpgWorld'', ''  id Int'']
     = [''model CritUserProfile {'', ''  id Int'']"
proof -
  let ?s0 = "scrub_init"
  let ?s1 = "scrub_step ?s0 ''model CritUserProfile {''"
  have p: "prefix target_prefix ''model CritUserProfile {''" by code_simp
  have np: "\<not> prefix target_prefix ''  bio String // was RpgWorld''" by code_simp
  have f: "has_forbidden ''  bio String // was RpgWorld''" by code_simp
  have s1: "in_crit_user ?s1 \<and> final_lines ?s1 = final_lines ?s0 @ [''model CritUserProfile {'']"
    using prefix_test_and_fragment_filter [where line = "''model CritUserProfile {''" and s = ?s0] p by blast
  have s2: "scrub_step ?s1 ''  bio String // was RpgWorld'' = ?s1"
    using prefix_test_and_fragment_filter [where line = "''  bio String // was RpgWorld''" and s = ?s1] s1 np f by blast
  have s3: "final_lines (scrub_step ?s1 ''  id Int'') = final_lines ?s1 @ [''  id Int'']"
    by code_simp
  show ?thesis using s1 s2 s3 by (simp add: scrubber_def scrub_init_def)
qed

text \<open>C10 as stated fails for a line that starts with \<^verbatim>\<open>model CritUser\<close>: met in scrubbing
  mode and holding the fragment \<^verbatim>\<open>RpgWorld\<close>, it is kept, while the field line before it is
  dropped.\<close>

theorem target_declaration_with_fragment_kept:
  "in_crit_user (scrub_loop scrub_init [''model CritUser {'']) \<and>
   has_forbidden ''model CritUserRpgWorld {'' \<and>
   scrubber [''model CritUser {'', ''  worlds RpgWorld[]'', ''model CritUserRpgWorld {'']
     = [''model CritUser {'', ''model CritUserRpgWorld {'']"
  by code_simp

section \<open>The whole transformation: basic facts\<close>

lemma emit_retained:
  assumes "\<forall>l\<in>set ls. \<forall>n. model_match l = Some n \<longrightarrow> n \<notin> exclude_models"
  shows "emit (False, b) ls = ls \<and> fst (mode_after (False, b) ls) = False"
  using assms
proof (induction ls arbitrary: b)
  case Nil
  show ?case by simp
next
  case (Cons l ls)
  have rest: "\<forall>l\<in>set ls. \<forall>n. model_match l = Some n \<longrightarrow> n \<notin> exclude_models"
    using Cons.prems by simp
  show ?case
  proof (cases "model_match l")
    case None
    then show ?thesis using Cons.IH [OF rest, of b] by (simp add: emitted_def mode_step_def)
  next
    case (Some n)
    then have "n \<notin> exclude_models" using Cons.prems by simp
    then show ?thesis using Some Cons.IH [OF rest, of 1] by (simp add: emitted_def mode_step_def)
  qed
qed

lemma emit_no_excluded:
  "\<forall>l\<in>set (emit m ls). \<forall>n. model_match l = Some n \<longrightarrow> n \<notin> exclude_models"
proof (induction ls arbitrary: m)
  case Nil
  show ?case by simp
next
  case (Cons l ls)
  show ?case using Cons.IH [of "mode_step m l"]
    by (auto simp: emitted_def split: option.splits)
qed

lemma retained_declaration:
  assumes "model_match d = Some name" and "name \<notin> exclude_models"
  shows "mode_step m d = (False, 1)" and "emitted m d"
  using assms by (simp_all add: mode_step_def emitted_def)

lemma inserted_lines_plain:
  "model_match [] = None" "model_match note1 = None" "model_match note2 = None"
  by code_simp+

lemma inserted_lines_scrub:
  "\<not> prefix target_prefix []" "strip [] \<noteq> ''}''" "\<not> has_forbidden []"
  "\<not> prefix target_prefix note1" "strip note1 \<noteq> ''}''" "has_forbidden note1"
  "\<not> prefix target_prefix note2" "strip note2 \<noteq> ''}''" "\<not> has_forbidden note2"
  "note1 \<noteq> note2"
  by code_simp+

lemma scrub_out_lines: "set (scrub_out b ls) \<subseteq> set ls \<union> {[], note1, note2}"
proof (induction ls arbitrary: b)
  case Nil
  show ?case by simp
next
  case (Cons l ls)
  show ?case using Cons.IH [of True] Cons.IH [of False] Cons.IH [of b] by auto
qed

lemma filter_transform_fixed: "block_filter (transform lines) = transform lines"
proof -
  have "\<forall>l\<in>set (transform lines). \<forall>n. model_match l = Some n \<longrightarrow> n \<notin> exclude_models"
  proof
    fix l assume "l \<in> set (transform lines)"
    then have "l \<in> set (emit (False, 0) lines) \<or> l \<in> {[], note1, note2}"
      using scrub_out_lines [of False "block_filter lines"]
      by (auto simp: transform_def scrubber_out block_filter_emit)
    then show "\<forall>n. model_match l = Some n \<longrightarrow> n \<notin> exclude_models"
      using emit_no_excluded [of "(False, 0)" lines] inserted_lines_plain by auto
  qed
  from emit_retained [OF this, of 0] show ?thesis by (simp add: block_filter_emit)
qed

lemma scrub_twice_same:
  assumes "\<not> closes_target b ls"
  shows "scrub_out b (scrub_out b ls) = scrub_out b ls"
  using assms
proof (induction ls arbitrary: b)
  case Nil
  show ?case by simp
next
  case (Cons l ls)
  consider (target) "prefix target_prefix l"
    | (closing) "\<not> prefix target_prefix l" "b" "strip l = ''}''"
    | (dropped) "\<not> prefix target_prefix l" "b" "strip l \<noteq> ''}''" "has_forbidden l"
    | (kept) "\<not> prefix target_prefix l" "\<not> (b \<and> strip l = ''}'')" "\<not> (b \<and> has_forbidden l)"
    by blast
  then show ?case
  proof cases
    case target
    then show ?thesis using Cons.prems Cons.IH [of True] by simp
  next
    case closing
    then show ?thesis using Cons.prems by simp
  next
    case dropped
    then have "\<not> closes_target b ls" using Cons.prems by simp
    from Cons.IH [OF this] show ?thesis using dropped by simp
  next
    case kept
    then have "\<not> closes_target b ls" using Cons.prems by auto
    from Cons.IH [OF this] have "scrub_out b (l # scrub_out b ls) = l # scrub_out b ls"
      using kept by auto
    moreover have "scrub_out b (l # ls) = l # scrub_out b ls" using kept by auto
    ultimately show ?thesis by simp
  qed
qed

lemma scrub_twice_differs:
  assumes "closes_target b ls"
  shows "scrub_out b (scrub_out b ls) \<noteq> scrub_out b ls"
  using assms
proof (induction ls arbitrary: b)
  case Nil
  then show ?case by simp
next
  case (Cons l ls)
  consider (target) "prefix target_prefix l"
    | (closing) "\<not> prefix target_prefix l" "b" "strip l = ''}''"
    | (dropped) "\<not> prefix target_prefix l" "b" "strip l \<noteq> ''}''" "has_forbidden l"
    | (kept) "\<not> prefix target_prefix l" "\<not> (b \<and> strip l = ''}'')" "\<not> (b \<and> has_forbidden l)"
    by blast
  then show ?case
  proof cases
    case target
    then show ?thesis using Cons.prems Cons.IH [of True] by simp
  next
    case closing
    let ?r = "scrub_out False ls"
    have first: "scrub_out b (l # ls) = [] # note1 # note2 # l # ?r"
      using closing by simp
    have "scrub_out True ([] # note1 # note2 # l # ?r) = [] # scrub_out True (note1 # note2 # l # ?r)"
      using inserted_lines_scrub(1-3) by simp
    also have "scrub_out True (note1 # note2 # l # ?r) = scrub_out True (note2 # l # ?r)"
      using inserted_lines_scrub(4-6) by simp
    also have "scrub_out True (note2 # l # ?r) = note2 # scrub_out True (l # ?r)"
      using inserted_lines_scrub(7-9) by simp
    finally have "scrub_out b (scrub_out b (l # ls)) = [] # note2 # scrub_out True (l # ?r)"
      using first closing by simp
    then show ?thesis using first inserted_lines_scrub(10) by simp
  next
    case dropped
    then have "closes_target b ls" using Cons.prems by simp
    from Cons.IH [OF this] show ?thesis using dropped by simp
  next
    case kept
    then have "closes_target b ls" using Cons.prems by auto
    from Cons.IH [OF this] have "scrub_out b (l # scrub_out b ls) \<noteq> l # scrub_out b ls"
      using kept by auto
    moreover have "scrub_out b (l # ls) = l # scrub_out b ls" using kept by auto
    ultimately show ?thesis by simp
  qed
qed

lemma closes_inside:
  assumes "\<forall>l\<in>set body. strip l \<noteq> ''}''" and "strip c = ''}''"
  shows "closes_target True (body @ c # rest)"
  using assms closing_not_target [of c] by (induction body) simp_all

lemma closes_later:
  assumes "prefix target_prefix d" and "closes_target True ls"
  shows "closes_target b (pre @ d # ls)"
  using assms by (induction pre arbitrary: b) simp_all

lemma closes_targetD:
  assumes "closes_target b y"
  shows "(b \<and> (\<exists>body c rest. y = body @ c # rest \<and> (\<forall>l\<in>set body. strip l \<noteq> ''}'') \<and> strip c = ''}''))
       \<or> (\<exists>pre d body c rest. y = pre @ d # body @ c # rest \<and> prefix target_prefix d \<and>
             (\<forall>l\<in>set body. strip l \<noteq> ''}'') \<and> strip c = ''}'')"
  using assms
proof (induction y arbitrary: b)
  case Nil
  then show ?case by simp
next
  case (Cons l ls)
  show ?case
  proof (cases "prefix target_prefix l")
    case True
    then have "closes_target True ls" using Cons.prems by simp
    from Cons.IH [OF this] show ?thesis
    proof
      assume "True \<and> (\<exists>body c rest. ls = body @ c # rest \<and> (\<forall>l\<in>set body. strip l \<noteq> ''}'') \<and> strip c = ''}'')"
      then obtain body c rest where "ls = body @ c # rest" "\<forall>l\<in>set body. strip l \<noteq> ''}''" "strip c = ''}''"
        by blast
      then have "l # ls = [] @ l # body @ c # rest \<and> prefix target_prefix l \<and>
          (\<forall>l\<in>set body. strip l \<noteq> ''}'') \<and> strip c = ''}''"
        using True by simp
      then show ?thesis by blast
    next
      assume "\<exists>pre d body c rest. ls = pre @ d # body @ c # rest \<and> prefix target_prefix d \<and>
          (\<forall>l\<in>set body. strip l \<noteq> ''}'') \<and> strip c = ''}''"
      then obtain pre d body c rest where "ls = pre @ d # body @ c # rest" "prefix target_prefix d"
          "\<forall>l\<in>set body. strip l \<noteq> ''}''" "strip c = ''}''"
        by blast
      then have "l # ls = (l # pre) @ d # body @ c # rest \<and> prefix target_prefix d \<and>
          (\<forall>l\<in>set body. strip l \<noteq> ''}'') \<and> strip c = ''}''"
        by simp
      then show ?thesis by blast
    qed
  next
    case False
    note np = this
    show ?thesis
    proof (cases "b \<and> strip l = ''}''")
      case True
      then have "l # ls = [] @ l # ls \<and> (\<forall>l\<in>set []. strip l \<noteq> ''}'') \<and> strip l = ''}''"
        by simp
      then show ?thesis using True by blast
    next
      case False
      then have "closes_target b ls" using np Cons.prems by simp
      from Cons.IH [OF this] show ?thesis
      proof
        assume a: "b \<and> (\<exists>body c rest. ls = body @ c # rest \<and> (\<forall>l\<in>set body. strip l \<noteq> ''}'') \<and> strip c = ''}'')"
        then obtain body c rest where "ls = body @ c # rest" "\<forall>l\<in>set body. strip l \<noteq> ''}''" "strip c = ''}''"
          by blast
        moreover have "strip l \<noteq> ''}''" using a False by simp
        ultimately have "l # ls = (l # body) @ c # rest \<and> (\<forall>l\<in>set (l # body). strip l \<noteq> ''}'') \<and> strip c = ''}''"
          by simp
        then show ?thesis using a by blast
      next
        assume "\<exists>pre d body c rest. ls = pre @ d # body @ c # rest \<and> prefix target_prefix d \<and>
            (\<forall>l\<in>set body. strip l \<noteq> ''}'') \<and> strip c = ''}''"
        then obtain pre d body c rest where "ls = pre @ d # body @ c # rest" "prefix target_prefix d"
            "\<forall>l\<in>set body. strip l \<noteq> ''}''" "strip c = ''}''"
          by blast
        then have "l # ls = (l # pre) @ d # body @ c # rest \<and> prefix target_prefix d \<and>
            (\<forall>l\<in>set body. strip l \<noteq> ''}'') \<and> strip c = ''}''"
          by simp
        then show ?thesis by blast
      qed
    qed
  qed
qed

lemma closes_target_iff:
  "closes_target False y \<longleftrightarrow>
     (\<exists>pre d body c rest. y = pre @ d # body @ c # rest \<and> prefix target_prefix d \<and>
        (\<forall>l\<in>set body. strip l \<noteq> ''}'') \<and> strip c = ''}'')"
proof
  assume "closes_target False y"
  from closes_targetD [OF this] show "\<exists>pre d body c rest. y = pre @ d # body @ c # rest \<and>
      prefix target_prefix d \<and> (\<forall>l\<in>set body. strip l \<noteq> ''}'') \<and> strip c = ''}''"
    by simp
next
  assume "\<exists>pre d body c rest. y = pre @ d # body @ c # rest \<and> prefix target_prefix d \<and>
      (\<forall>l\<in>set body. strip l \<noteq> ''}'') \<and> strip c = ''}''"
  then obtain pre d body c rest where y: "y = pre @ d # body @ c # rest"
    and d: "prefix target_prefix d" and body: "\<forall>l\<in>set body. strip l \<noteq> ''}''"
    and c: "strip c = ''}''"
    by blast
  show "closes_target False y"
    unfolding y by (rule closes_later [OF d closes_inside [OF body c]])
qed

lemma split_nl_nonempty: "split_nl s \<noteq> []"
  by (induction s) (simp_all split: list.splits)

lemma split_nl_no_newline: "\<forall>l\<in>set (split_nl s). newline \<notin> set l"
  by (induction s) (auto split: list.splits)

lemma split_nl_line: "newline \<notin> set l \<Longrightarrow> split_nl l = [l]"
  by (induction l) auto

lemma split_nl_append: "newline \<notin> set l \<Longrightarrow> split_nl (l @ newline # s) = l # split_nl s"
  by (induction l) auto

lemma split_join:
  assumes "ls \<noteq> []" and "\<forall>l\<in>set ls. newline \<notin> set l"
  shows "split_nl (join_nl ls) = ls"
  using assms
proof (induction ls rule: join_nl.induct)
  case 1
  then show ?case by simp
next
  case (2 l)
  then show ?case by (simp add: split_nl_line)
next
  case (3 l l' ls)
  then show ?case by (simp add: split_nl_append)
qed

lemma notes_no_newline: "newline \<notin> set note1" "newline \<notin> set note2"
  by code_simp+

lemma emit_lines: "set (emit m ls) \<subseteq> set ls"
proof (induction ls arbitrary: m)
  case Nil
  show ?case by simp
next
  case (Cons l ls)
  show ?case using Cons.IH [of "mode_step m l"] by auto
qed

lemma transform_no_newline:
  assumes "\<forall>l\<in>set ls. newline \<notin> set l"
  shows "\<forall>l\<in>set (transform ls). newline \<notin> set l"
proof
  fix l assume "l \<in> set (transform ls)"
  then have "l \<in> set ls \<or> l \<in> {[], note1, note2}"
    using scrub_out_lines [of False "block_filter ls"] emit_lines [of "(False, 0)" ls]
    by (auto simp: transform_def scrubber_out block_filter_emit)
  then show "newline \<notin> set l" using assms notes_no_newline by auto
qed

section \<open>Claims about the whole transformation\<close>

text \<open>
  C3. A retained run of lines: a declaration line \<open>d\<close> of a model that is not excluded,
  followed by lines \<open>body\<close> none of which declares an excluded model (the rest of the block,
  lines outside blocks, further retained blocks). When no line of the run starts with
  \<^verbatim>\<open>model CritUser\<close> and the scrubber is not inside a target block when it reaches the run,
  the run appears in the final output unchanged, between the output for the lines before
  it and the output for the lines after it: content and relative order are preserved.
\<close>

theorem retained_block_unchanged:
  assumes decl: "model_match d = Some name" and keep: "name \<notin> exclude_models"
    and body: "\<forall>l\<in>set body. \<forall>n. model_match l = Some n \<longrightarrow> n \<notin> exclude_models"
    and untargeted: "\<forall>l\<in>set (d # body). \<not> prefix target_prefix l"
    and outside: "\<not> in_crit_user (scrub_loop scrub_init (block_filter pre))"
  shows "transform (pre @ d # body @ post) = transform pre @ d # body @ transform post"
proof -
  let ?m = "mode_after (False, 0) pre"
  let ?m' = "mode_after (False, 1) body"
  have seg: "emit (False, 1) body = body" and off: "fst ?m' = False"
    using emit_retained [OF body, of 1] by simp_all
  have "emit ?m' post = emit (False, 0) post"
    using off emit_not_skipping [of "snd ?m'" post 0] by (cases ?m') simp
  then have filtered: "block_filter (pre @ d # body @ post) =
      block_filter pre @ (d # body) @ block_filter post"
    using retained_declaration [OF decl keep, of ?m] seg
    by (simp add: block_filter_emit emit_append)
  have mode: "scrub_mode False (block_filter pre) = False"
    using outside by (simp add: scrub_loop_mode scrub_init_def)
  have "scrub_out False (block_filter pre @ (d # body) @ block_filter post) =
      scrub_out False (block_filter pre) @ (d # body) @ scrub_out False (block_filter post)"
    using mode scrub_untargeted [OF untargeted]
    by (simp only: scrub_out_append scrub_mode_append)
  then show ?thesis
    by (simp add: transform_def filtered scrubber_out)
qed

theorem retained_block_unchanged_witness:
  "transform ([''model RpgPlayer {'', ''}'', ''model CritUser {'', ''}''] @
       ''model Account {'' # [''  id Int'', ''}'', ''// end''] @ [''model RpgWorld {'', ''}''])
     = transform [''model RpgPlayer {'', ''}'', ''model CritUser {'', ''}''] @
       ''model Account {'' # [''  id Int'', ''}'', ''// end''] @ transform [''model RpgWorld {'', ''}'']"
proof -
  have decl: "model_match ''model Account {'' = Some ''Account''" by code_simp
  have keep: "''Account'' \<notin> exclude_models" by code_simp
  have m: "model_match ''  id Int'' = None" "model_match ''}'' = None" "model_match ''// end'' = None"
    by code_simp+
  have body: "\<forall>l\<in>set [''  id Int'', ''}'', ''// end'']. \<forall>n. model_match l = Some n \<longrightarrow> n \<notin> exclude_models"
    using m by simp
  have untargeted: "\<forall>l\<in>set (''model Account {'' # [''  id Int'', ''}'', ''// end'']). \<not> prefix target_prefix l"
    by code_simp
  have outside: "\<not> in_crit_user (scrub_loop scrub_init
      (block_filter [''model RpgPlayer {'', ''}'', ''model CritUser {'', ''}'']))"
    by code_simp
  show ?thesis by (rule retained_block_unchanged [OF decl keep body untargeted outside])
qed

text \<open>C3 as stated fails for a block whose name is neither excluded nor \<^verbatim>\<open>CritUser\<close> but begins
  with it: the prefix test makes the scrubber treat it as the target block.\<close>

theorem prefixed_block_is_scrubbed:
  "model_match ''model CritUserProfile {'' = Some ''CritUserProfile'' \<and>
   ''CritUserProfile'' \<notin> exclude_models \<and> ''CritUserProfile'' \<noteq> ''CritUser'' \<and>
   transform [''model CritUserProfile {'', ''  rpgPlayer Int'', ''}'']
     = [''model CritUserProfile {'', [], note1, note2, ''}'']"
  by code_simp

text \<open>
  C4. Running the transformation on its own output: the block filter removes nothing
  further, and the output is unchanged exactly when the first run inserted no note, that
  is when the filtered document has no line starting with \<^verbatim>\<open>model CritUser\<close> that is followed,
  with no closing line in between, by a line whose trimmed content is \<^verbatim>\<open>}\<close>. Otherwise the
  second run drops the first line of the note (it holds forbidden fragments) and inserts
  the three lines again.
\<close>

theorem rerun_idempotent_iff_no_closed_target:
  "block_filter (transform lines) = transform lines \<and>
   (transform (transform lines) = transform lines \<longleftrightarrow>
      \<not> (\<exists>pre d body c rest. block_filter lines = pre @ d # body @ c # rest \<and>
            prefix target_prefix d \<and> (\<forall>l\<in>set body. strip l \<noteq> ''}'') \<and> strip c = ''}''))"
proof -
  have fixed: "block_filter (transform lines) = transform lines"
    by (rule filter_transform_fixed)
  have "transform (transform lines) = scrub_out False (scrub_out False (block_filter lines))"
    using fixed by (simp add: transform_def scrubber_out)
  moreover have "transform lines = scrub_out False (block_filter lines)"
    by (simp add: transform_def scrubber_out)
  ultimately have "transform (transform lines) = transform lines \<longleftrightarrow>
      \<not> closes_target False (block_filter lines)"
    using scrub_twice_same [of False "block_filter lines"]
      scrub_twice_differs [of False "block_filter lines"]
    by auto
  then show ?thesis using fixed closes_target_iff [of "block_filter lines"] by simp
qed

theorem rerun_idempotent_iff_no_closed_target_witness:
  "transform (transform [''model A {'', ''  x Int'', ''}'', ''model RpgPlayer {'', ''  y String'', ''}'', ''model B {'', ''}''])
     = transform [''model A {'', ''  x Int'', ''}'', ''model RpgPlayer {'', ''  y String'', ''}'', ''model B {'', ''}'']"
proof -
  let ?L = "[''model A {'', ''  x Int'', ''}'', ''model RpgPlayer {'', ''  y String'', ''}'', ''model B {'', ''}'']"
  have np: "\<forall>l\<in>set (block_filter ?L). \<not> prefix target_prefix l" by code_simp
  have "\<not> (\<exists>pre d body c rest. block_filter ?L = pre @ d # body @ c # rest \<and>
            prefix target_prefix d \<and> (\<forall>l\<in>set body. strip l \<noteq> ''}'') \<and> strip c = ''}'')"
  proof
    assume "\<exists>pre d body c rest. block_filter ?L = pre @ d # body @ c # rest \<and>
            prefix target_prefix d \<and> (\<forall>l\<in>set body. strip l \<noteq> ''}'') \<and> strip c = ''}''"
    then obtain pre d body c rest where split: "block_filter ?L = pre @ d # body @ c # rest"
      and d: "prefix target_prefix d" by blast
    have "d \<in> set (pre @ d # body @ c # rest)" by simp
    then have "d \<in> set (block_filter ?L)" by (simp only: split)
    then show False using np d by blast
  qed
  with rerun_idempotent_iff_no_closed_target [of ?L] show ?thesis by blast
qed

text \<open>C4 as stated fails on the smallest target block: the second run changes the output.\<close>

theorem second_run_changes_output:
  "transform (transform [''model CritUser {'', ''}''])
     = [''model CritUser {'', [], note2, [], note1, note2, ''}''] \<and>
   transform (transform [''model CritUser {'', ''}'']) \<noteq> transform [''model CritUser {'', ''}'']"
  by code_simp

section \<open>Claims about reading, writing and reporting\<close>

text \<open>
  C7. When the input file is readable text, the output path is writable and the final line
  sequence is not empty, the script succeeds, the output file holds the final lines joined
  with newlines, this text splits at newlines into exactly as many lines as the final
  sequence has, and the last thing printed is that number.
\<close>

theorem reported_count_is_lines_written:
  assumes "files w input_path = Some (Text content)"
    and "output_path \<notin> unwritable w"
    and "transform (split_nl content) \<noteq> []"
  shows "fst (extract_website_schema w) = Inr () \<and>
         files (snd (extract_website_schema w)) output_path
           = Some (Text (join_nl (transform (split_nl content)))) \<and>
         length (split_nl (join_nl (transform (split_nl content))))
           = length (transform (split_nl content)) \<and>
         console (snd (extract_website_schema w))
           = console w @ [Message ''Website schema extracted successfully'',
                          TotalLines (length (transform (split_nl content)))]"
proof -
  have "split_nl (join_nl (transform (split_nl content))) = transform (split_nl content)"
    by (rule split_join [OF assms(3) transform_no_newline [OF split_nl_no_newline]])
  then show ?thesis using assms(1,2)
    by (simp add: extract_website_schema_def read_text_def write_text_def transform_def Let_def)
qed

theorem reported_count_is_lines_written_witness:
  "files (snd (extract_website_schema
       \<lparr>files = [input_path \<mapsto> Text (''model A {'' @ newline # ''}'')], unwritable = {}, console = []\<rparr>))
     output_path = Some (Text (''model A {'' @ newline # ''}'')) \<and>
   length (split_nl (''model A {'' @ newline # ''}'')) = 2 \<and>
   console (snd (extract_website_schema
       \<lparr>files = [input_path \<mapsto> Text (''model A {'' @ newline # ''}'')], unwritable = {}, console = []\<rparr>))
     = [Message ''Website schema extracted successfully'', TotalLines 2]"
proof -
  let ?c = "''model A {'' @ newline # ''}''"
  let ?w = "\<lparr>files = [input_path \<mapsto> Text ?c], unwritable = {}, console = []\<rparr>"
  have h1: "files ?w input_path = Some (Text ?c)" by simp
  have h2: "output_path \<notin> unwritable ?w" by simp
  have t: "transform (split_nl ?c) = [''model A {'', ''}'']" by code_simp
  have h3: "transform (split_nl ?c) \<noteq> []" by (simp only: t) simp
  have j: "join_nl [''model A {'', ''}''] = ?c" by simp
  from reported_count_is_lines_written [OF h1 h2 h3] show ?thesis
    by (simp only: t j) simp
qed

text \<open>
  C8. When reading the input file fails (the file is missing or is not UTF-8), the script
  ends with that error and the world is unchanged: nothing is written to the output file,
  whose previous content stays, and nothing is printed.
\<close>

theorem read_failure_writes_nothing:
  assumes "read_text w input_path = Inl e"
  shows "extract_website_schema w = (Inl e, w)"
  using assms by (simp add: extract_website_schema_def)

theorem read_failure_writes_nothing_witness:
  "extract_website_schema \<lparr>files = [output_path \<mapsto> Text ''old''], unwritable = {}, console = []\<rparr>
     = (Inl FileNotFound, \<lparr>files = [output_path \<mapsto> Text ''old''], unwritable = {}, console = []\<rparr>)"
proof -
  have "read_text \<lparr>files = [output_path \<mapsto> Text ''old''], unwritable = {}, console = []\<rparr> input_path
      = Inl FileNotFound"
    by (simp add: read_text_def input_path_def output_path_def)
  then show ?thesis by (rule read_failure_writes_nothing)
qed

end
